theory Spec2Isabelle
  imports Complex_Main
begin

section \<open>The expense statistics engine (calc-engine/src/statistics.cpp)\<close>

text \<open>
  The engine is a collection of static functions of \<^verbatim>\<open>StatisticsCalculator\<close> over
  \<^verbatim>\<open>std::vector<double>\<close>. A vector is a list. In the functions whose properties below
  concern the shape of the result, its guards and which elements it selects, a
  \<^verbatim>\<open>double\<close> is modelled by the real number it denotes: the arithmetic there is exact,
  and every sum is written in the order the code adds (a left fold from \<open>0.0\<close>). The two
  moving averages are modelled over IEEE 754 binary64 values with rounding, infinities
  and NaN, since what is said of them depends on these.
  A \<^verbatim>\<open>size_t\<close> is a natural number and an \<^verbatim>\<open>int\<close> an integer; the code only
  compares the \<^verbatim>\<open>int\<close>s it is given, counts up to them, or clamps them to a smaller
  value, and the counts of the frequency table are bounded by the length of the data, so
  no arithmetic on them leaves the 32-bit range.
\<close>

type_synonym double = real

subsection \<open>Monthly totals\<close>

text \<open>
  \<^verbatim>\<open>for (int d = 0; d < days && idx < amounts.size(); ++d, ++idx)
      month_total += amounts[idx];\<close>
  The inner loop returns the position it stopped at together with the total of the month.
\<close>

function month_loop :: "double list \<Rightarrow> int \<Rightarrow> int \<Rightarrow> nat \<Rightarrow> double \<Rightarrow> nat \<times> double" where
  "month_loop amounts days d idx month_total =
     (if d < days \<and> idx < length amounts
      then month_loop amounts days (d + 1) (idx + 1) (month_total + amounts ! idx)
      else (idx, month_total))"
  by pat_completeness auto
termination
  by (relation "measure (\<lambda>(amounts, days, d, idx, month_total). nat (days - d))") auto

declare month_loop.simps [simp del]

text \<open>
  \<^verbatim>\<open>for (int days : days_in_months) { double month_total = 0.0; ...;
      totals.push_back(month_total); }\<close>
  Every month pushes its total, also when no amount is left.
\<close>

fun totals_loop :: "double list \<Rightarrow> int list \<Rightarrow> nat \<Rightarrow> double list \<Rightarrow> double list" where
  "totals_loop amounts [] idx totals = totals"
| "totals_loop amounts (days # rest) idx totals =
     (case month_loop amounts days 0 idx 0 of
        (idx', month_total) \<Rightarrow> totals_loop amounts rest idx' (totals @ [month_total]))"

definition monthly_totals :: "double list \<Rightarrow> int list \<Rightarrow> double list" where
  "monthly_totals amounts days_in_months =
     (if amounts = [] \<or> days_in_months = [] then []
      else totals_loop amounts days_in_months 0 [])"

text \<open>
  The partition the totals are compared with: consecutive buckets of the given sizes, a
  size that is not positive giving an empty bucket, and a bucket that reaches the end of
  the amounts being short (or empty).
\<close>

fun buckets :: "'a list \<Rightarrow> int list \<Rightarrow> 'a list list" where
  "buckets xs [] = []"
| "buckets xs (d # ds) = take (nat d) xs # buckets (drop (nat d) xs) ds"

text \<open>The position in the amounts at which bucket \<open>k\<close> begins.\<close>

definition bucket_start :: "int list \<Rightarrow> nat \<Rightarrow> nat" where
  "bucket_start ds k = sum_list (map nat (take k ds))"

subsection \<open>Basic statistics\<close>

text \<open>\<^verbatim>\<open>std::accumulate(data.begin(), data.end(), 0.0)\<close> adds from the left.\<close>

definition sum_stat :: "double list \<Rightarrow> double" where
  "sum_stat data = (if data = [] then 0 else foldl (+) 0 data)"

definition mean :: "double list \<Rightarrow> double" where
  "mean data = (if data = [] then 0 else sum_stat data / real (length data))"

text \<open>\<open>median\<close> and \<open>percentile\<close> take their vector by value and sort the copy.\<close>

definition median :: "double list \<Rightarrow> double" where
  "median data =
     (if data = [] then 0
      else
        let data = sort data; n = length data in
        if n mod 2 = 0 then (data ! (n div 2 - 1) + data ! (n div 2)) / 2
        else data ! (n div 2))"

text \<open>
  \<^verbatim>\<open>double sum_sq = 0.0;
  for (double val : data) { double diff = val - m; sum_sq += diff * diff; }\<close>
\<close>

definition sum_sq_loop :: "double \<Rightarrow> double list \<Rightarrow> double" where
  "sum_sq_loop m data = foldl (\<lambda>sum_sq val. let diff = val - m in sum_sq + diff * diff) 0 data"

definition variance :: "double list \<Rightarrow> double" where
  "variance data =
     (if length data < 2 then 0
      else let m = mean data in sum_sq_loop m data / real (length data))"

subsection \<open>Mode\<close>

text \<open>
  \<^verbatim>\<open>std::unordered_map<double, int> frequency;
  for (double val : data) { frequency[val]++; }\<close>
  The table is kept as the list of its entries in the order of their insertion, with
  distinct keys: \<^verbatim>\<open>frequency[val]\<close> inserts the key with the count \<open>0\<close> when it is
  absent, and the increment makes it \<open>1\<close>.
\<close>

fun bump :: "(double \<times> int) list \<Rightarrow> double \<Rightarrow> (double \<times> int) list" where
  "bump [] val = [(val, 1)]"
| "bump ((k, c) # rest) val =
     (if k = val then (k, c + 1) # rest else (k, c) # bump rest val)"

definition frequency :: "double list \<Rightarrow> (double \<times> int) list" where
  "frequency data = foldl bump [] data"

text \<open>
  \<^verbatim>\<open>for (const auto& pair : frequency)\<close> visits every entry of the table once, in an order
  that \<^verbatim>\<open>std::unordered_map\<close> leaves unspecified: it depends on the hash of the keys and
  on the layout of the buckets, not on the order of insertion alone (the GNU library puts
  a new entry at the front of its bucket's chain, so that a small table is visited from the
  newest entry to the oldest). The order of the visit is therefore a parameter of the
  model: a function from the entries in insertion order to the entries as visited.
\<close>

type_synonym traversal = "(double \<times> int) list \<Rightarrow> (double \<times> int) list"

definition visits_all :: "traversal \<Rightarrow> (double \<times> int) list \<Rightarrow> bool" where
  "visits_all iter table \<longleftrightarrow> distinct (iter table) \<and> set (iter table) = set table"

text \<open>
  \<^verbatim>\<open>if (pair.second > max_count) { max_count = pair.second; mode_val = pair.first; }\<close>
\<close>

fun scan :: "(double \<times> int) list \<Rightarrow> double \<Rightarrow> int \<Rightarrow> double" where
  "scan [] mode_val max_count = mode_val"
| "scan ((k, c) # rest) mode_val max_count =
     (if c > max_count then scan rest k c else scan rest mode_val max_count)"

definition mode :: "traversal \<Rightarrow> double list \<Rightarrow> double" where
  "mode iter data =
     (if data = [] then 0 else scan (iter (frequency data)) (data ! 0) 0)"

subsection \<open>Percentile\<close>

datatype error = invalid_argument string

definition percentile :: "double list \<Rightarrow> double \<Rightarrow> error + double" where
  "percentile data p =
     (if data = [] then Inr 0
      else if p < 0 \<or> p > 100
      then Inl (invalid_argument ''Percentile must be between 0 and 100'')
      else
        let data = sort data in
        if p = 0 then Inr (hd data)
        else if p = 100 then Inr (last data)
        else
          let index = (p / 100) * real (length data - 1);
              lower = nat \<lfloor>index\<rfloor>;
              upper = nat \<lceil>index\<rceil>
          in
            if lower = upper then Inr (data ! lower)
            else
              let weight = index - real lower
              in Inr (data ! lower * (1 - weight) + data ! upper * weight))"



subsection \<open>The summary\<close>

text \<open>
  The fields of \<^verbatim>\<open>StatisticsResult\<close> carry the suffix \<open>_f\<close>: most of their names are
  also names of functions of the engine or of the library. A default-constructed result has
  every field \<open>0\<close>.
\<close>

record StatisticsResult =
  sum_f :: double
  mean_f :: double
  median_f :: double
  mode_f :: double
  variance_f :: double
  stddev_f :: double
  min_f :: double
  max_f :: double
  range_f :: double
  q1_f :: double
  q3_f :: double
  iqr_f :: double
  count_f :: nat

definition StatisticsResult_init :: StatisticsResult where
  "StatisticsResult_init =
     \<lparr>sum_f = 0, mean_f = 0, median_f = 0, mode_f = 0, variance_f = 0, stddev_f = 0,
      min_f = 0, max_f = 0, range_f = 0, q1_f = 0, q3_f = 0, iqr_f = 0, count_f = 0\<rparr>"

text \<open>
  \<^verbatim>\<open>std::minmax_element\<close> on a non-empty range: the values at the two iterators it
  returns, the smallest and the largest element.
\<close>

definition minmax_element :: "double list \<Rightarrow> double \<times> double" where
  "minmax_element data = (foldl min (hd data) (tl data), foldl max (hd data) (tl data))"

text \<open>
  The assignments are made in the order of the code; an exception of \<open>percentile\<close> would
  leave the function at that call.
\<close>

definition calculate_all :: "traversal \<Rightarrow> double list \<Rightarrow> error + StatisticsResult" where
  "calculate_all iter data =
     (let result = StatisticsResult_init in
      if data = [] then Inr result
      else
        let result = result\<lparr>count_f := length data\<rparr>;
            result = result\<lparr>sum_f := sum_stat data\<rparr>;
            result = result\<lparr>mean_f := sum_f result / real (count_f result)\<rparr>;
            result = result\<lparr>median_f := median data\<rparr>;
            result = result\<lparr>mode_f := mode iter data\<rparr>;
            result = result\<lparr>variance_f := variance data\<rparr>;
            result = result\<lparr>stddev_f := sqrt (variance_f result)\<rparr>;
            minmax = minmax_element data;
            result = result\<lparr>min_f := fst minmax\<rparr>;
            result = result\<lparr>max_f := snd minmax\<rparr>;
            result = result\<lparr>range_f := max_f result - min_f result\<rparr>
        in
          case percentile data 25 of
            Inl e \<Rightarrow> Inl e
          | Inr q1 \<Rightarrow>
              (case percentile data 75 of
                 Inl e \<Rightarrow> Inl e
               | Inr q3 \<Rightarrow>
                   let result = result\<lparr>q1_f := q1\<rparr>;
                       result = result\<lparr>q3_f := q3\<rparr>;
                       result = result\<lparr>iqr_f := q3_f result - q1_f result\<rparr>
                   in Inr result))"

subsection \<open>Double arithmetic\<close>

text \<open>
  The values of IEEE 754 binary64, the arithmetic of \<^verbatim>\<open>double\<close>: a finite value is the
  real number it denotes, and there are the two infinities and NaN. The sign of a zero is
  not kept; no comparison and no result below depends on it.
\<close>

datatype binary64 = Finite real | PlusInf | MinusInf | NaN

text \<open>
  Rounding to nearest, ties to even. \<open>binary_exponent x\<close> is the exponent \<open>e\<close> with
  \<open>2 ^ e \<le> \<bar>x\<bar> < 2 ^ (e + 1)\<close>. A binary64 value has 53 significant bits, so near
  \<open>x\<close> the representable values are the multiples of \<open>2 ^ (e - 52)\<close>; below
  \<open>2 ^ (-1022)\<close> they are the multiples of \<open>2 ^ (-1074)\<close> (the subnormal numbers), and
  a result of magnitude \<open>2 ^ 1024\<close> or more is an infinity.
\<close>

definition round_half_even :: "real \<Rightarrow> int" where
  "round_half_even m =
     (let f = \<lfloor>m\<rfloor>; d = m - of_int f
      in if d < 1 / 2 then f else if d > 1 / 2 then f + 1 else if even f then f else f + 1)"

function bexp_up :: "real \<Rightarrow> int" where
  "bexp_up x = (if 2 \<le> x then bexp_up (x / 2) + 1 else 0)"
  by pat_completeness auto
termination
proof (relation "measure (\<lambda>x. nat \<lfloor>x\<rfloor>)")
  show "wf (measure (\<lambda>x. nat \<lfloor>x\<rfloor>))" by simp
next
  fix x :: real
  assume a: "2 \<le> x"
  then have "x / 2 \<le> x - 1" by simp
  then have "\<lfloor>x / 2\<rfloor> \<le> \<lfloor>x - 1\<rfloor>" by (rule floor_mono)
  moreover from a have "2 \<le> \<lfloor>x\<rfloor>" by (simp add: le_floor_iff)
  ultimately show "(x / 2, x) \<in> measure (\<lambda>x. nat \<lfloor>x\<rfloor>)" by simp
qed

function bexp_down :: "real \<Rightarrow> int" where
  "bexp_down x = (if 0 < x \<and> x < 1 then bexp_down (2 * x) - 1 else 0)"
  by pat_completeness auto
termination
proof (relation "measure (\<lambda>x. nat \<lceil>1 / x\<rceil>)")
  show "wf (measure (\<lambda>x. nat \<lceil>1 / x\<rceil>))" by simp
next
  fix x :: real
  assume a: "0 < x \<and> x < 1"
  then have y: "1 < 1 / x" by simp
  have "\<lceil>1 / (2 * x)\<rceil> < \<lceil>1 / x\<rceil>"
  proof (cases "2 \<le> 1 / x")
    case True
    then have "1 / (2 * x) \<le> 1 / x - 1" by (simp add: field_simps)
    then have "\<lceil>1 / (2 * x)\<rceil> \<le> \<lceil>1 / x - 1\<rceil>" by (rule ceiling_mono)
    then show ?thesis by simp
  next
    case False
    with a have "1 / (2 * x) \<le> 1" by (simp add: field_simps)
    then have "\<lceil>1 / (2 * x)\<rceil> \<le> 1" by (simp add: ceiling_le_iff)
    moreover from y have "1 < \<lceil>1 / x\<rceil>" by linarith
    ultimately show ?thesis by linarith
  qed
  moreover from y have "0 < \<lceil>1 / x\<rceil>" by linarith
  ultimately show "(2 * x, x) \<in> measure (\<lambda>x. nat \<lceil>1 / x\<rceil>)" by simp
qed

declare bexp_up.simps [simp del] bexp_down.simps [simp del]

definition binary_exponent :: "real \<Rightarrow> int" where
  "binary_exponent x = (if 1 \<le> \<bar>x\<bar> then bexp_up \<bar>x\<bar> else bexp_down \<bar>x\<bar>)"

definition pow2 :: "int \<Rightarrow> real" where
  "pow2 e = (if 0 \<le> e then 2 ^ nat e else 1 / 2 ^ nat (- e))"

definition round_double :: "real \<Rightarrow> binary64" where
  "round_double x =
     (if x = 0 then Finite 0
      else
        let e = max (binary_exponent x) (- 1022);
            ulp = pow2 (e - 52);
            r = of_int (round_half_even (x / ulp)) * ulp
        in if 2 ^ 1024 \<le> \<bar>r\<bar> then (if 0 < x then PlusInf else MinusInf) else Finite r)"


text \<open>
  The operations \<^verbatim>\<open>+\<close>, \<^verbatim>\<open>-\<close>, \<^verbatim>\<open>*\<close>, \<^verbatim>\<open>/\<close> round the exact result; NaN
  propagates, and the infinities follow the rules of the standard. A comparison with NaN
  is false.
\<close>

fun fneg :: "binary64 \<Rightarrow> binary64" where
  "fneg (Finite a) = Finite (- a)"
| "fneg PlusInf = MinusInf"
| "fneg MinusInf = PlusInf"
| "fneg NaN = NaN"

fun fadd :: "binary64 \<Rightarrow> binary64 \<Rightarrow> binary64" where
  "fadd (Finite a) (Finite b) = round_double (a + b)"
| "fadd NaN _ = NaN"
| "fadd _ NaN = NaN"
| "fadd PlusInf MinusInf = NaN"
| "fadd MinusInf PlusInf = NaN"
| "fadd PlusInf _ = PlusInf"
| "fadd _ PlusInf = PlusInf"
| "fadd MinusInf _ = MinusInf"
| "fadd _ MinusInf = MinusInf"

definition fsub :: "binary64 \<Rightarrow> binary64 \<Rightarrow> binary64" where
  "fsub a b = fadd a (fneg b)"

fun fmul :: "binary64 \<Rightarrow> binary64 \<Rightarrow> binary64" where
  "fmul (Finite a) (Finite b) = round_double (a * b)"
| "fmul NaN _ = NaN"
| "fmul _ NaN = NaN"
| "fmul (Finite a) PlusInf = (if a = 0 then NaN else if 0 < a then PlusInf else MinusInf)"
| "fmul (Finite a) MinusInf = (if a = 0 then NaN else if 0 < a then MinusInf else PlusInf)"
| "fmul PlusInf (Finite b) = (if b = 0 then NaN else if 0 < b then PlusInf else MinusInf)"
| "fmul MinusInf (Finite b) = (if b = 0 then NaN else if 0 < b then MinusInf else PlusInf)"
| "fmul PlusInf PlusInf = PlusInf"
| "fmul MinusInf MinusInf = PlusInf"
| "fmul PlusInf MinusInf = MinusInf"
| "fmul MinusInf PlusInf = MinusInf"

fun fdiv :: "binary64 \<Rightarrow> binary64 \<Rightarrow> binary64" where
  "fdiv (Finite a) (Finite b) =
     (if b = 0 then (if a = 0 then NaN else if 0 < a then PlusInf else MinusInf)
      else round_double (a / b))"
| "fdiv NaN _ = NaN"
| "fdiv _ NaN = NaN"
| "fdiv (Finite a) _ = Finite 0"
| "fdiv PlusInf (Finite b) = (if 0 \<le> b then PlusInf else MinusInf)"
| "fdiv MinusInf (Finite b) = (if 0 \<le> b then MinusInf else PlusInf)"
| "fdiv _ _ = NaN"

fun fle :: "binary64 \<Rightarrow> binary64 \<Rightarrow> bool" where
  "fle (Finite a) (Finite b) = (a \<le> b)"
| "fle NaN _ = False"
| "fle _ NaN = False"
| "fle MinusInf _ = True"
| "fle _ PlusInf = True"
| "fle _ _ = False"

fun fless :: "binary64 \<Rightarrow> binary64 \<Rightarrow> bool" where
  "fless (Finite a) (Finite b) = (a < b)"
| "fless NaN _ = False"
| "fless _ NaN = False"
| "fless PlusInf _ = False"
| "fless _ MinusInf = False"
| "fless _ _ = True"

subsection \<open>Moving averages\<close>

text \<open>
  The two moving averages are modelled over binary64 values: what they return depends on
  the rounding of every operation and on how NaN compares. The field \<^verbatim>\<open>values\<close> is
  named \<open>values_f\<close>. A default-constructed result has no values, the current average
  \<open>0.0\<close> and the window size \<open>0\<close>.
\<close>

record MovingAverageResult =
  values_f :: "binary64 list"
  current_average :: binary64
  window_size :: int

definition MovingAverageResult_init :: MovingAverageResult where
  "MovingAverageResult_init = \<lparr>values_f = [], current_average = Finite 0, window_size = 0\<rparr>"

text \<open>\<^verbatim>\<open>for (int i = 0; i < window; ++i) { window_sum += data[i]; }\<close>\<close>

function window_sum_loop :: "binary64 list \<Rightarrow> int \<Rightarrow> int \<Rightarrow> binary64 \<Rightarrow> binary64" where
  "window_sum_loop data window i window_sum =
     (if i < window then window_sum_loop data window (i + 1) (fadd window_sum (data ! nat i))
      else window_sum)"
  by pat_completeness auto
termination
  by (relation "measure (\<lambda>(data, window, i, window_sum). nat (window - i))") auto

declare window_sum_loop.simps [simp del]

text \<open>
  \<^verbatim>\<open>for (size_t i = window; i < data.size(); ++i) {
      window_sum = window_sum - data[i - window] + data[i];
      result.values.push_back(window_sum / window); }\<close>
  The \<^verbatim>\<open>int\<close> window is converted to \<^verbatim>\<open>double\<close> exactly.
\<close>

function slide_loop ::
  "binary64 list \<Rightarrow> int \<Rightarrow> nat \<Rightarrow> binary64 \<Rightarrow> binary64 list \<Rightarrow> binary64 list" where
  "slide_loop data window i window_sum vals =
     (if i < length data
      then
        let window_sum = fadd (fsub window_sum (data ! (i - nat window))) (data ! i)
        in slide_loop data window (i + 1) window_sum
             (vals @ [fdiv window_sum (Finite (real_of_int window))])
      else vals)"
  by pat_completeness auto
termination
  by (relation "measure (\<lambda>(data, window, i, window_sum, vals). length data - i)") auto

declare slide_loop.simps [simp del]

definition moving_average :: "binary64 list \<Rightarrow> int \<Rightarrow> MovingAverageResult" where
  "moving_average data window =
     (let result = MovingAverageResult_init\<lparr>window_size := window\<rparr> in
      if data = [] \<or> window \<le> 0 then result
      else
        let (window, result) =
              (if nat window > length data
               then (int (length data), result\<lparr>window_size := int (length data)\<rparr>)
               else (window, result));
            window_sum = window_sum_loop data window 0 (Finite 0);
            result = result\<lparr>values_f :=
                       values_f result @ [fdiv window_sum (Finite (real_of_int window))]\<rparr>;
            result = result\<lparr>values_f :=
                       slide_loop data window (nat window) window_sum (values_f result)\<rparr>
        in result\<lparr>current_average :=
                    (if values_f result = [] then Finite 0 else last (values_f result))\<rparr>)"

text \<open>
  \<^verbatim>\<open>for (size_t i = 1; i < data.size(); ++i) {
      double ema = alpha * data[i] + (1 - alpha) * result.values.back();
      result.values.push_back(ema); }\<close>
\<close>

function ema_loop ::
  "binary64 list \<Rightarrow> binary64 \<Rightarrow> nat \<Rightarrow> binary64 list \<Rightarrow> binary64 list" where
  "ema_loop data alpha i vals =
     (if i < length data
      then
        let ema = fadd (fmul alpha (data ! i)) (fmul (fsub (Finite 1) alpha) (last vals))
        in ema_loop data alpha (i + 1) (vals @ [ema])
      else vals)"
  by pat_completeness auto
termination
  by (relation "measure (\<lambda>(data, alpha, i, vals). length data - i)") auto

declare ema_loop.simps [simp del]

text \<open>
  \<^verbatim>\<open>if (data.empty() || alpha <= 0 || alpha > 1) { return result; }\<close>
  Both comparisons are false for a NaN \<open>alpha\<close>.
\<close>

definition exponential_moving_average ::
  "binary64 list \<Rightarrow> binary64 \<Rightarrow> MovingAverageResult" where
  "exponential_moving_average data alpha =
     (let result = MovingAverageResult_init\<lparr>window_size := - 1\<rparr> in
      if data = [] \<or> fle alpha (Finite 0) \<or> fless (Finite 1) alpha then result
      else
        let result = result\<lparr>values_f := values_f result @ [data ! 0]\<rparr>;
            result = result\<lparr>values_f := ema_loop data alpha 1 (values_f result)\<rparr>
        in result\<lparr>current_average := last (values_f result)\<rparr>)"

text \<open>
  For the statements: \<open>alpha\<close> lies in \<open>(0, 1]\<close>; and every sum of at most \<open>window\<close>
  consecutive elements of \<open>xs\<close> is a binary64 value, so that no addition or subtraction
  of the sliding window rounds.
\<close>

fun in_unit_interval :: "binary64 \<Rightarrow> bool" where
  "in_unit_interval (Finite a) \<longleftrightarrow> 0 < a \<and> a \<le> 1"
| "in_unit_interval _ \<longleftrightarrow> False"

definition exact_sums :: "real list \<Rightarrow> int \<Rightarrow> bool" where
  "exact_sums xs window \<longleftrightarrow>
     (\<forall>a \<in> set [0..<length xs]. \<forall>l \<in> set [0..<Suc (nat window)].
        round_double (sum_list (take l (drop a xs))) = Finite (sum_list (take l (drop a xs))))"

subsection \<open>Correlation\<close>

text \<open>The two strings of a default-constructed result are empty.\<close>

record CorrelationResult =
  pearson_coefficient :: double
  r_squared :: double
  strength :: string
  direction :: string

definition CorrelationResult_init :: CorrelationResult where
  "CorrelationResult_init =
     \<lparr>pearson_coefficient = 0, r_squared = 0, strength = [], direction = []\<rparr>"

text \<open>
  \<^verbatim>\<open>for (size_t i = 0; i < x.size(); ++i) {
      double dx = x[i] - mean_x; double dy = y[i] - mean_y;
      numerator += dx * dy; sum_sq_x += dx * dx; sum_sq_y += dy * dy; }\<close>
  The loop runs only when both vectors have the same length.
\<close>

function correlation_loop ::
  "double list \<Rightarrow> double list \<Rightarrow> double \<Rightarrow> double \<Rightarrow> nat \<Rightarrow> double \<times> double \<times> double
     \<Rightarrow> double \<times> double \<times> double" where
  "correlation_loop x y mean_x mean_y i (numerator, sum_sq_x, sum_sq_y) =
     (if i < length x
      then
        let dx = x ! i - mean_x; dy = y ! i - mean_y
        in correlation_loop x y mean_x mean_y (i + 1)
             (numerator + dx * dy, sum_sq_x + dx * dx, sum_sq_y + dy * dy)
      else (numerator, sum_sq_x, sum_sq_y))"
  by pat_completeness auto
termination
  by (relation "measure (\<lambda>(x, y, mean_x, mean_y, i, acc). length x - i)") auto

declare correlation_loop.simps [simp del]

definition correlation :: "double list \<Rightarrow> double list \<Rightarrow> CorrelationResult" where
  "correlation x y =
     (let result = CorrelationResult_init in
      if length x \<noteq> length y \<or> length x < 2
      then result\<lparr>strength := ''invalid'', direction := ''none''\<rparr>
      else
        let mean_x = mean x;
            mean_y = mean y;
            (numerator, sum_sq_x, sum_sq_y) = correlation_loop x y mean_x mean_y 0 (0, 0, 0);
            denominator = sqrt (sum_sq_x * sum_sq_y);
            result = result\<lparr>pearson_coefficient :=
                       (if denominator = 0 then 0 else numerator / denominator)\<rparr>;
            result = result\<lparr>r_squared := pearson_coefficient result * pearson_coefficient result\<rparr>;
            abs_r = \<bar>pearson_coefficient result\<bar>;
            result = result\<lparr>strength :=
                       (if abs_r \<ge> 0.8 then ''very_strong''
                        else if abs_r \<ge> 0.6 then ''strong''
                        else if abs_r \<ge> 0.4 then ''moderate''
                        else if abs_r \<ge> 0.2 then ''weak''
                        else ''very_weak'')\<rparr>
        in result\<lparr>direction :=
                    (if pearson_coefficient result > 0.1 then ''positive''
                     else if pearson_coefficient result < - 0.1 then ''negative''
                     else ''none'')\<rparr>)"

subsection \<open>Outlier detection\<close>




section \<open>Properties\<close>

subsection \<open>Monthly totals\<close>

lemma month_loop_eq:
  "0 \<le> d \<Longrightarrow>
   month_loop amounts days d idx t =
     (idx + min (nat (days - d)) (length amounts - idx),
      t + sum_list (take (nat (days - d)) (drop idx amounts)))"
proof (induction amounts days d idx t rule: month_loop.induct)
  case (1 amounts days d idx t)
  show ?case
  proof (cases "d < days \<and> idx < length amounts")
    case True
    then have step: "month_loop amounts days d idx t =
        month_loop amounts days (d + 1) (idx + 1) (t + amounts ! idx)"
      by (subst month_loop.simps) simp
    from True have n: "nat (days - d) = Suc (nat (days - (d + 1)))"
      by linarith
    from True have dr: "drop idx amounts = amounts ! idx # drop (Suc idx) amounts"
      by (simp add: Cons_nth_drop_Suc)
    from "1.prems" have "0 \<le> d + 1" by simp
    with "1.IH" True have ih: "month_loop amounts days (d + 1) (idx + 1) (t + amounts ! idx) =
        (idx + 1 + min (nat (days - (d + 1))) (length amounts - (idx + 1)),
         t + amounts ! idx + sum_list (take (nat (days - (d + 1))) (drop (idx + 1) amounts)))"
      by blast
    from True show ?thesis
      unfolding step ih n dr by (auto simp: min_def)
  next
    case False
    then have stop: "month_loop amounts days d idx t = (idx, t)"
      by (subst month_loop.simps) auto
    from False show ?thesis
      unfolding stop by (auto simp: not_less)
  qed
qed

lemma totals_loop_eq:
  "totals_loop amounts ds idx totals =
     totals @ map sum_list (buckets (drop idx amounts) ds)"
proof (induction ds arbitrary: idx totals)
  case Nil
  show ?case by simp
next
  case (Cons days rest)
  have tk: "take (min (nat days) (length amounts - idx)) (drop idx amounts) =
      take (nat days) (drop idx amounts)"
    by (simp add: min_def)
  have dr: "drop (idx + min (nat days) (length amounts - idx)) amounts =
      drop (nat days) (drop idx amounts)"
    by (simp add: min_def add.commute)
  show ?case
    by (simp add: month_loop_eq Cons.IH dr)
qed

lemma length_buckets: "length (buckets xs ds) = length ds"
  by (induction ds arbitrary: xs) simp_all

text \<open>
  Claim C1, as amended. When both inputs are non-empty, \<open>monthly_totals\<close> returns one
  total for every bucket size, in order: the sum of the amounts of that consecutive
  bucket. A bucket that reaches the end of the amounts is short, and every bucket that
  begins after the amounts are exhausted still has its entry, the total \<open>0\<close>; the result
  is as long as the list of bucket sizes. When either input is empty the result is empty.
\<close>

theorem monthly_totals_buckets:
  "(amounts \<noteq> [] \<and> days_in_months \<noteq> [] \<longrightarrow>
      monthly_totals amounts days_in_months = map sum_list (buckets amounts days_in_months)
      \<and> length (monthly_totals amounts days_in_months) = length days_in_months)
   \<and> monthly_totals [] days_in_months = []
   \<and> monthly_totals amounts [] = []"
  by (simp add: monthly_totals_def totals_loop_eq length_buckets)

theorem monthly_totals_buckets_witness:
  "[1, 2, 3 :: double] \<noteq> [] \<and> [2, 2, 2 :: int] \<noteq> []
   \<and> monthly_totals [1, 2, 3] [2, 2, 2] = [3, 3, 0]
   \<and> monthly_totals [1, 2, 3] [2, 5] = [3, 3]"
  using monthly_totals_buckets [of "[1, 2, 3]" "[2, 2, 2]"]
    monthly_totals_buckets [of "[1, 2, 3]" "[2, 5]"]
  by simp

text \<open>
  Claim C1 as stated fails: with three amounts and the bucket sizes \<open>2, 2, 2\<close> the third
  bucket begins at position 4, after the amounts are exhausted, and the result still has
  an entry for it.
\<close>

theorem monthly_totals_early_stop_counterexample:
  "length [1, 2, 3 :: double] \<le> bucket_start [2, 2, 2] 2
   \<and> 2 < length (monthly_totals [1, 2, 3] [2, 2, 2])
   \<and> monthly_totals [1, 2, 3] [2, 2, 2] = [3, 3, 0]"
  by (simp add: monthly_totals_def totals_loop_eq bucket_start_def)

subsection \<open>Mode\<close>

lemma keys_bump: "fst ` set (bump fs v) = insert v (fst ` set fs)"
  by (induction fs v rule: bump.induct) auto

lemma distinct_bump: "distinct (map fst fs) \<Longrightarrow> distinct (map fst (bump fs v))"
  by (induction fs v rule: bump.induct) (auto simp: keys_bump)

lemma map_of_bump:
  "map_of (bump fs v) k =
     (if k = v then Some (case map_of fs v of None \<Rightarrow> 1 | Some c \<Rightarrow> c + 1) else map_of fs k)"
  by (induction fs v rule: bump.induct) auto

lemma map_of_bump_count:
  assumes "\<forall>k. map_of fs k = (if k \<in> set pre then Some (int (count_list pre k)) else None)"
  shows "map_of (bump fs v) k =
     (if k \<in> set (pre @ [v]) then Some (int (count_list (pre @ [v]) k)) else None)"
proof (cases "k = v")
  case True
  show ?thesis
  proof (cases "v \<in> set pre")
    case True
    with assms \<open>k = v\<close> show ?thesis by (simp add: map_of_bump)
  next
    case False
    then have "count_list pre v = 0" by simp
    with assms False \<open>k = v\<close> show ?thesis by (simp add: map_of_bump)
  qed
next
  case False
  with assms show ?thesis by (simp add: map_of_bump)
qed

lemma foldl_bump:
  "distinct (map fst fs) \<Longrightarrow>
   \<forall>k. map_of fs k = (if k \<in> set pre then Some (int (count_list pre k)) else None) \<Longrightarrow>
   distinct (map fst (foldl bump fs data)) \<and>
   (\<forall>k. map_of (foldl bump fs data) k =
      (if k \<in> set (pre @ data) then Some (int (count_list (pre @ data) k)) else None))"
proof (induction data arbitrary: fs pre)
  case Nil
  then show ?case by simp
next
  case (Cons v data)
  from Cons.prems(1) have d: "distinct (map fst (bump fs v))"
    by (rule distinct_bump)
  have m: "\<forall>k. map_of (bump fs v) k =
      (if k \<in> set (pre @ [v]) then Some (int (count_list (pre @ [v]) k)) else None)"
    using map_of_bump_count [OF Cons.prems(2)] by blast
  from Cons.IH [OF d m] show ?case by simp
qed

lemma distinct_frequency: "distinct (map fst (frequency data))"
  using foldl_bump [of "[]" "[]" data] by (simp add: frequency_def)

lemma frequency_entry:
  "(k, c) \<in> set (frequency data) \<longleftrightarrow> k \<in> set data \<and> c = int (count_list data k)"
proof -
  have "(k, c) \<in> set (frequency data) \<longleftrightarrow> map_of (frequency data) k = Some c"
    using distinct_frequency by (simp add: map_of_eq_Some_iff)
  then show ?thesis
    using foldl_bump [of "[]" "[]" data] by (auto simp: frequency_def)
qed

lemma ex_max_entry:
  "fs \<noteq> [] \<Longrightarrow> \<exists>(k, c) \<in> set fs. \<forall>(k', c') \<in> set fs. c' \<le> (c::int)"
proof (induction fs)
  case Nil
  then show ?case by simp
next
  case (Cons e fs)
  obtain k0 c0 where e: "e = (k0, c0)" by (cases e)
  show ?case
  proof (cases "fs = []")
    case True
    with e show ?thesis by simp
  next
    case False
    with Cons.IH obtain k c where m: "(k, c) \<in> set fs" "\<forall>(k', c') \<in> set fs. c' \<le> c"
      by auto
    show ?thesis
    proof (cases "c0 \<le> c")
      case True
      with m e show ?thesis by force
    next
      case False
      with m e show ?thesis by force
    qed
  qed
qed

lemma first_key_default:
  "xs \<noteq> [] \<Longrightarrow>
   (case xs of [] \<Rightarrow> a | (k, c) # _ \<Rightarrow> k) = (case xs of [] \<Rightarrow> b | (k, c) # _ \<Rightarrow> k)"
  by (cases xs) auto

lemma scan_first_max:
  "scan fs mode_val max_count =
     (case [(k, c) \<leftarrow> fs. max_count < c \<and> (\<forall>(k', c') \<in> set fs. c' \<le> c)] of
        [] \<Rightarrow> mode_val | (k, c) # _ \<Rightarrow> k)"
proof (induction fs mode_val max_count rule: scan.induct)
  case (1 mode_val max_count)
  show ?case by simp
next
  case (2 k c rest mode_val max_count)
  let ?top = "\<lambda>m. [(k', c') \<leftarrow> rest. m < c' \<and> (\<forall>(k'', c'') \<in> set rest. c'' \<le> c')]"
  show ?case
  proof (cases "c > max_count")
    case True
    with 2 have ih: "scan ((k, c) # rest) mode_val max_count =
        (case ?top c of [] \<Rightarrow> k | (k, c) # _ \<Rightarrow> k)"
      by simp
    show ?thesis
    proof (cases "\<forall>(k', c') \<in> set rest. c' \<le> c")
      case all: True
      then have "?top c = []"
        by (auto simp: filter_empty_conv)
      with True all ih show ?thesis by simp
    next
      case False
      then have "rest \<noteq> []" by auto
      from ex_max_entry [OF this] obtain km cm
        where m: "(km, cm) \<in> set rest" "\<forall>(k', c') \<in> set rest. c' \<le> cm"
        by auto
      with False have "c < cm" by force
      with m have ne: "?top c \<noteq> []"
        by (auto simp: filter_empty_conv)
      have whole: "[(k', c') \<leftarrow> (k, c) # rest. max_count < c' \<and>
            (\<forall>(k'', c'') \<in> set ((k, c) # rest). c'' \<le> c')] = ?top c"
        using True False by (auto intro!: filter_cong)
      show ?thesis
        unfolding ih whole by (rule first_key_default [OF ne])
    qed
  next
    case False
    with 2 have ih: "scan ((k, c) # rest) mode_val max_count =
        (case ?top max_count of [] \<Rightarrow> mode_val | (k, c) # _ \<Rightarrow> k)"
      by simp
    have whole: "[(k', c') \<leftarrow> (k, c) # rest. max_count < c' \<and>
          (\<forall>(k'', c'') \<in> set ((k, c) # rest). c'' \<le> c')] = ?top max_count"
      using False by (auto intro!: filter_cong)
    show ?thesis
      unfolding ih whole ..
  qed
qed

lemma count_list_pos: "x \<in> set xs \<Longrightarrow> 0 < count_list xs x"
  using count_list_0_iff [of xs x] by auto

lemma mode_scan_result:
  assumes ne: "data \<noteq> []" and tr: "visits_all iter (frequency data)"
  shows "[k \<leftarrow> map fst (iter (frequency data)).
            \<forall>y \<in> set data. count_list data y \<le> count_list data k] \<noteq> []"
    and "mode iter data =
          hd [k \<leftarrow> map fst (iter (frequency data)).
                \<forall>y \<in> set data. count_list data y \<le> count_list data k]"
proof -
  let ?T = "iter (frequency data)"
  let ?P = "\<lambda>k. \<forall>y \<in> set data. count_list data y \<le> count_list data k"
  let ?F = "[(k, c) \<leftarrow> ?T. 0 < c \<and> (\<forall>(k', c') \<in> set ?T. c' \<le> c)]"
  from tr have st: "set ?T = set (frequency data)"
    by (simp add: visits_all_def)
  have entry: "(k, c) \<in> set ?T \<longleftrightarrow> k \<in> set data \<and> c = int (count_list data k)" for k c
    unfolding st by (rule frequency_entry)
  from ne have "hd data \<in> set data" by simp
  then have "(hd data, int (count_list data (hd data))) \<in> set ?T"
    by (simp add: entry)
  then have "?T \<noteq> []" by auto
  from ex_max_entry [OF this] obtain km cm
    where m: "(km, cm) \<in> set ?T" "\<forall>(k', c') \<in> set ?T. c' \<le> cm"
    by auto
  from m(1) have "0 < cm" by (auto simp: entry count_list_pos)
  with m have Fne: "?F \<noteq> []"
    by (auto simp: filter_empty_conv)
  have eqv: "(0 < c \<and> (\<forall>(k', c') \<in> set ?T. c' \<le> c)) \<longleftrightarrow> ?P k" if kc: "(k, c) \<in> set ?T" for k c
  proof
    assume a: "0 < c \<and> (\<forall>(k', c') \<in> set ?T. c' \<le> c)"
    show "?P k"
    proof
      fix y assume "y \<in> set data"
      then have "(y, int (count_list data y)) \<in> set ?T" by (simp add: entry)
      with a have "int (count_list data y) \<le> c" by fastforce
      with kc show "count_list data y \<le> count_list data k" by (simp add: entry)
    qed
  next
    assume "?P k"
    with kc show "0 < c \<and> (\<forall>(k', c') \<in> set ?T. c' \<le> c)"
      by (auto simp: entry count_list_pos)
  qed
  have F: "?F = filter (?P \<circ> fst) ?T"
  proof (rule filter_cong [OF refl])
    fix x assume x: "x \<in> set ?T"
    obtain k c where xc: "x = (k, c)" by (cases x)
    from x have "(k, c) \<in> set ?T" unfolding xc .
    from eqv [OF this]
    show "(case x of (k, c) \<Rightarrow> 0 < c \<and> (\<forall>(k', c') \<in> set ?T. c' \<le> c)) = (?P \<circ> fst) x"
      unfolding xc by (simp only: split_conv comp_def fst_conv)
  qed
  have keys: "map fst ?F = filter ?P (map fst ?T)"
    unfolding F by (simp add: filter_map)
  from Fne have "map fst ?F \<noteq> []" by simp
  then show "filter ?P (map fst ?T) \<noteq> []"
    unfolding keys .
  from ne have "mode iter data = (case ?F of [] \<Rightarrow> data ! 0 | (k, c) # _ \<Rightarrow> k)"
    by (simp add: mode_def scan_first_max)
  also from Fne have "\<dots> = hd (map fst ?F)"
    by (cases ?F) auto
  finally show "mode iter data = hd (filter ?P (map fst ?T))"
    by (simp only: keys)
qed

text \<open>With the entries visited in insertion order, the keys are met in the order of their first
  occurrence in the data.\<close>

lemma keys_bump_list:
  "map fst (bump fs v) = (if v \<in> set (map fst fs) then map fst fs else map fst fs @ [v])"
  by (induction fs v rule: bump.induct) auto

lemma keys_foldl_bump_prefix:
  "\<exists>rest. map fst (foldl bump fs data) = map fst fs @ rest"
proof (induction data arbitrary: fs)
  case Nil
  show ?case by simp
next
  case (Cons v data)
  from Cons.IH [of "bump fs v"] obtain rest
    where "map fst (foldl bump (bump fs v) data) = map fst (bump fs v) @ rest"
    by blast
  then show ?case
    by (simp add: keys_bump_list split: if_splits)
qed

lemma hd_filter_keys_foldl_bump:
  "filter P (map fst fs) = [] \<Longrightarrow> filter P data \<noteq> [] \<Longrightarrow>
   hd (filter P (map fst (foldl bump fs data))) = hd (filter P data)"
proof (induction data arbitrary: fs)
  case Nil
  then show ?case by simp
next
  case (Cons v data)
  show ?case
  proof (cases "P v")
    case True
    with Cons.prems(1) have "v \<notin> set (map fst fs)"
      by (auto simp: filter_empty_conv)
    then have k: "map fst (bump fs v) = map fst fs @ [v]"
      by (simp add: keys_bump_list)
    from keys_foldl_bump_prefix [of "bump fs v" data] obtain rest
      where "map fst (foldl bump (bump fs v) data) = map fst (bump fs v) @ rest"
      by blast
    with k have "filter P (map fst (foldl bump (bump fs v) data)) =
        filter P (map fst fs) @ v # filter P rest"
      using True by simp
    with Cons.prems(1) True show ?thesis by simp
  next
    case False
    with Cons.prems have "filter P (map fst (bump fs v)) = []" "filter P data \<noteq> []"
      by (simp_all add: keys_bump_list)
    from Cons.IH [OF this] False show ?thesis by simp
  qed
qed

lemma hd_filter_frequency_keys:
  "filter P data \<noteq> [] \<Longrightarrow> hd (filter P (map fst (frequency data))) = hd (filter P data)"
  using hd_filter_keys_foldl_bump [of P "[]" data] by (simp add: frequency_def)

text \<open>
  Claim C2, as amended. The mode of an empty sequence is \<open>0.0\<close>. For a non-empty
  sequence, \<open>mode\<close> returns a value of the highest frequency, and among the values that
  share it the one met first when the frequency table is traversed; the traversal of the
  hash table visits every entry once, in an order of its own. When the traversal happens
  to follow the order of insertion, that value is the earliest-inserted one of the highest
  frequency, the first element of the data whose frequency is maximal.
\<close>

theorem mode_first_in_traversal:
  "mode iter [] = 0 \<and>
   (data \<noteq> [] \<and> visits_all iter (frequency data) \<longrightarrow>
      (\<forall>y. count_list data y \<le> count_list data (mode iter data)) \<and>
      (\<exists>rest. [k \<leftarrow> map fst (iter (frequency data)).
                  \<forall>y \<in> set data. count_list data y \<le> count_list data k] =
               mode iter data # rest)) \<and>
   (data \<noteq> [] \<and> iter (frequency data) = frequency data \<longrightarrow>
      (\<exists>rest. [x \<leftarrow> data. \<forall>y \<in> set data. count_list data y \<le> count_list data x] =
               mode iter data # rest))"
proof (intro conjI impI)
  show "mode iter [] = 0" by (simp add: mode_def)
next
  assume a: "data \<noteq> [] \<and> visits_all iter (frequency data)"
  let ?P = "\<lambda>k. \<forall>y \<in> set data. count_list data y \<le> count_list data k"
  from a mode_scan_result [of data iter]
  have ne: "filter ?P (map fst (iter (frequency data))) \<noteq> []"
    and eq: "mode iter data = hd (filter ?P (map fst (iter (frequency data))))"
    by blast+
  from ne have "filter ?P (map fst (iter (frequency data))) =
      mode iter data # tl (filter ?P (map fst (iter (frequency data))))"
    unfolding eq by simp
  then show "\<exists>rest. filter ?P (map fst (iter (frequency data))) = mode iter data # rest" ..
  from hd_in_set [OF ne] have "?P (mode iter data)"
    unfolding eq by simp
  then have top: "count_list data y \<le> count_list data (mode iter data)" if "y \<in> set data" for y
    using that by blast
  show "\<forall>y. count_list data y \<le> count_list data (mode iter data)"
  proof
    fix y
    show "count_list data y \<le> count_list data (mode iter data)"
    proof (cases "y \<in> set data")
      case True
      then show ?thesis by (rule top)
    next
      case False
      then show ?thesis by simp
    qed
  qed
next
  assume a: "data \<noteq> [] \<and> iter (frequency data) = frequency data"
  let ?P = "\<lambda>k. \<forall>y \<in> set data. count_list data y \<le> count_list data k"
  from a distinct_frequency [of data] have tr: "visits_all iter (frequency data)"
    by (simp add: visits_all_def distinct_map)
  from a tr mode_scan_result [of data iter]
  have ne: "filter ?P (map fst (frequency data)) \<noteq> []"
    and eq: "mode iter data = hd (filter ?P (map fst (frequency data)))"
    by simp_all
  from ne have "\<exists>x \<in> set (map fst (frequency data)). ?P x"
    by (simp only: filter_empty_conv) blast
  then obtain x c where "(x, c) \<in> set (frequency data)" "?P x" by auto
  then have "x \<in> set data" "?P x" by (simp_all add: frequency_entry)
  then have fne: "filter ?P data \<noteq> []"
    by (simp only: filter_empty_conv) blast
  from hd_filter_frequency_keys [OF fne] eq
  have "mode iter data = hd (filter ?P data)" by simp
  with fne have "filter ?P data = mode iter data # tl (filter ?P data)"
    by simp
  then show "\<exists>rest. filter ?P data = mode iter data # rest" ..
qed

theorem mode_first_in_traversal_witness:
  "[1, 2, 2, 3, 3 :: double] \<noteq> [] \<and> visits_all rev (frequency [1, 2, 2, 3, 3])
   \<and> mode rev [1, 2, 2, 3, 3] = 3
   \<and> id (frequency [1, 2, 2, 3, 3]) = frequency [1, 2, 2, 3, 3]
   \<and> mode id [1, 2, 2, 3, 3] = 2"
proof -
  let ?d = "[1, 2, 2, 3, 3 :: double]"
  have h1: "?d \<noteq> [] \<and> visits_all rev (frequency ?d)"
    by (auto simp: visits_all_def frequency_def)
  have h2: "?d \<noteq> [] \<and> id (frequency ?d) = frequency ?d"
    by simp
  from mode_first_in_traversal [of rev ?d] h1
  obtain r1 where "[k \<leftarrow> map fst (rev (frequency ?d)).
      \<forall>y \<in> set ?d. count_list ?d y \<le> count_list ?d k] = mode rev ?d # r1"
    by blast
  then have m1: "mode rev ?d = 3"
    by (auto simp: frequency_def)
  from mode_first_in_traversal [of id ?d] h2
  obtain r2 where "[x \<leftarrow> ?d. \<forall>y \<in> set ?d. count_list ?d y \<le> count_list ?d x] = mode id ?d # r2"
    by blast
  then have m2: "mode id ?d = 2"
    by auto
  from h1 h2 m1 m2 show ?thesis by blast
qed

text \<open>
  Claim C2 as stated fails: in \<open>[1, 2]\<close> both values have the highest frequency and
  \<open>1\<close> is inserted first, but a table that is traversed from the newest entry to the
  oldest gives \<open>2\<close>.
\<close>

theorem mode_insertion_order_counterexample:
  "visits_all rev (frequency [1, 2]) \<and> frequency [1, 2] = [(1, 1), (2, 1)]
   \<and> mode rev [1, 2] = 2"
  by (auto simp: visits_all_def frequency_def mode_def)

text \<open>
  Claim C10. For a non-empty sequence, the value that \<open>mode\<close> returns is an element of
  the sequence, whatever the order in which the frequency table is traversed.
\<close>

theorem mode_in_data:
  "data \<noteq> [] \<Longrightarrow> visits_all iter (frequency data) \<Longrightarrow> mode iter data \<in> set data"
proof -
  assume a: "data \<noteq> []" "visits_all iter (frequency data)"
  let ?P = "\<lambda>k. \<forall>y \<in> set data. count_list data y \<le> count_list data k"
  from a mode_scan_result [of data iter]
  have ne: "filter ?P (map fst (iter (frequency data))) \<noteq> []"
    and eq: "mode iter data = hd (filter ?P (map fst (iter (frequency data))))"
    by blast+
  from hd_in_set [OF ne] have "mode iter data \<in> fst ` set (iter (frequency data))"
    unfolding eq by simp
  with a(2) have "mode iter data \<in> fst ` set (frequency data)"
    by (simp add: visits_all_def)
  then show ?thesis
    by (auto simp: frequency_entry)
qed

theorem mode_in_data_witness:
  "[5, 7, 7 :: double] \<noteq> [] \<and> visits_all id (frequency [5, 7, 7])
   \<and> mode id [5, 7, 7] = 7 \<and> mode id [5, 7, 7] \<in> set [5, 7, 7]"
proof -
  have h: "[5, 7, 7 :: double] \<noteq> []" "visits_all id (frequency [5, 7, 7])"
    by (simp_all add: visits_all_def frequency_def)
  from mode_in_data [OF h] h show ?thesis
    by (simp add: mode_def frequency_def)
qed

subsection \<open>Percentile\<close>


lemma percentile_in_range:
  "0 \<le> p \<Longrightarrow> p \<le> 100 \<Longrightarrow> \<exists>v. percentile data p = Inr v"
  by (auto simp: percentile_def Let_def)

text \<open>
  Claim C3, as amended. For every non-empty sequence and every \<open>p\<close> with \<open>p < 0\<close> or
  \<open>p > 100\<close>, \<open>percentile\<close> fails with the invalid-argument condition, and for every
  \<open>p\<close> in \<open>[0, 100]\<close> it returns a value. For the empty sequence it returns \<open>0.0\<close>
  without failing for every \<open>p\<close>, inside or outside \<open>[0, 100]\<close>: the check for the
  empty input comes first.
\<close>

theorem percentile_argument_check:
  "(data \<noteq> [] \<and> (p < 0 \<or> p > 100) \<longrightarrow>
      percentile data p = Inl (invalid_argument ''Percentile must be between 0 and 100''))
   \<and> (data \<noteq> [] \<and> 0 \<le> p \<and> p \<le> 100 \<longrightarrow> (\<exists>v. percentile data p = Inr v))
   \<and> percentile [] p = Inr 0"
  by (auto simp: percentile_def Let_def)

theorem percentile_argument_check_witness:
  "[1 :: double] \<noteq> [] \<and> ((- 1 :: double) < 0 \<or> (- 1 :: double) > 100)
   \<and> percentile [1] (- 1) = Inl (invalid_argument ''Percentile must be between 0 and 100'')
   \<and> percentile [1] 101 = Inl (invalid_argument ''Percentile must be between 0 and 100'')
   \<and> (0 :: double) \<le> 25 \<and> (25 :: double) \<le> 100
   \<and> (\<exists>v. percentile [10, 20, 30, 40, 50] 25 = Inr v)"
  using percentile_argument_check [of "[1]" "- 1"] percentile_argument_check [of "[1]" 101]
    percentile_argument_check [of "[10, 20, 30, 40, 50]" 25]
  by simp

text \<open>
  Claim C3 as stated fails on the empty sequence: with \<open>p = -1\<close> the call returns
  \<open>0.0\<close> and does not fail.
\<close>

theorem percentile_empty_counterexample:
  "(- 1 :: double) < 0 \<and> percentile [] (- 1) = Inr 0"
  by (simp add: percentile_def)

subsection \<open>The summary\<close>

lemma foldl_min_Min: "foldl min x xs = Min (set (x # xs))" for x :: real
proof -
  have "(\<lambda>a b. min b a) = (min :: real \<Rightarrow> real \<Rightarrow> real)"
    by (intro ext) (rule min.commute)
  then show ?thesis
    by (simp only: foldl_conv_fold Min.set_eq_fold)
qed

lemma foldl_max_Max: "foldl max x xs = Max (set (x # xs))" for x :: real
proof -
  have "(\<lambda>a b. max b a) = (max :: real \<Rightarrow> real \<Rightarrow> real)"
    by (intro ext) (rule max.commute)
  then show ?thesis
    by (simp only: foldl_conv_fold Max.set_eq_fold)
qed

lemma minmax_element_Min_Max:
  assumes "data \<noteq> []"
  shows "minmax_element data = (Min (set data), Max (set data))"
proof (cases data)
  case Nil
  with assms show ?thesis by simp
next
  case (Cons x xs)
  then show ?thesis
    by (simp only: minmax_element_def foldl_min_Min foldl_max_Max list.sel)
qed

text \<open>
  Claim C8. For every input, \<open>calculate_all\<close> returns a summary without failing, in which
  the range is the maximum minus the minimum, the interquartile range is \<open>q3 - q1\<close> and
  the count is the length of the input; for a non-empty input the minimum and the maximum
  are those of the input. For the empty input every field of the summary is \<open>0\<close>.
\<close>

theorem calculate_all_summary:
  "(\<exists>r. calculate_all iter data = Inr r
        \<and> range_f r = max_f r - min_f r
        \<and> iqr_f r = q3_f r - q1_f r
        \<and> count_f r = length data
        \<and> (data \<noteq> [] \<longrightarrow> min_f r = Min (set data) \<and> max_f r = Max (set data)))
   \<and> calculate_all iter [] =
       Inr \<lparr>sum_f = 0, mean_f = 0, median_f = 0, mode_f = 0, variance_f = 0, stddev_f = 0,
            min_f = 0, max_f = 0, range_f = 0, q1_f = 0, q3_f = 0, iqr_f = 0, count_f = 0\<rparr>"
proof (rule conjI)
  show "calculate_all iter [] =
       Inr \<lparr>sum_f = 0, mean_f = 0, median_f = 0, mode_f = 0, variance_f = 0, stddev_f = 0,
            min_f = 0, max_f = 0, range_f = 0, q1_f = 0, q3_f = 0, iqr_f = 0, count_f = 0\<rparr>"
    by (simp add: calculate_all_def StatisticsResult_init_def)
  show "\<exists>r. calculate_all iter data = Inr r
        \<and> range_f r = max_f r - min_f r
        \<and> iqr_f r = q3_f r - q1_f r
        \<and> count_f r = length data
        \<and> (data \<noteq> [] \<longrightarrow> min_f r = Min (set data) \<and> max_f r = Max (set data))"
  proof (cases "data = []")
    case True
    then show ?thesis
      by (simp add: calculate_all_def StatisticsResult_init_def)
  next
    case False
    obtain q1 where q1: "percentile data 25 = Inr q1"
      using percentile_in_range [of 25 data] by auto
    obtain q3 where q3: "percentile data 75 = Inr q3"
      using percentile_in_range [of 75 data] by auto
    from False show ?thesis
      by (simp add: calculate_all_def StatisticsResult_init_def Let_def q1 q3
          minmax_element_Min_Max)
  qed
qed

theorem calculate_all_summary_witness:
  "(\<exists>r. calculate_all id [10, 20, 30, 40, 50] = Inr r
        \<and> range_f r = 40 \<and> min_f r = 10 \<and> max_f r = 50 \<and> count_f r = 5)
   \<and> [10, 20, 30, 40, 50 :: double] \<noteq> []"
proof -
  let ?d = "[10, 20, 30, 40, 50 :: double]"
  from calculate_all_summary [of id ?d]
  obtain r where r: "calculate_all id ?d = Inr r" "range_f r = max_f r - min_f r"
      "count_f r = length ?d" "?d \<noteq> [] \<longrightarrow> min_f r = Min (set ?d) \<and> max_f r = Max (set ?d)"
    by blast
  have ne: "?d \<noteq> []" by simp
  with r(4) have "min_f r = 10" "max_f r = 50"
    by simp_all
  with r ne show ?thesis
    by simp
qed

subsection \<open>Moving averages\<close>

text \<open>The equations that evaluate \<open>round_double\<close> at a given number.\<close>

lemmas round_double_eval = round_double_def binary_exponent_def pow2_def round_half_even_def
  Let_def bexp_up.simps bexp_down.simps

lemma length_slide_loop:
  "length (slide_loop data window i window_sum vals) = length vals + (length data - i)"
proof (induction data window i window_sum vals rule: slide_loop.induct)
  case (1 data window i window_sum vals)
  show ?case
  proof (cases "i < length data")
    case True
    let ?ws = "fadd (fsub window_sum (data ! (i - nat window))) (data ! i)"
    from True have step: "slide_loop data window i window_sum vals =
        slide_loop data window (i + 1) ?ws (vals @ [fdiv ?ws (Finite (real_of_int window))])"
      by (subst slide_loop.simps) (simp add: Let_def)
    from True show ?thesis
      unfolding step "1.IH" [OF True refl] by simp
  next
    case False
    then have stop: "slide_loop data window i window_sum vals = vals"
      by (subst slide_loop.simps) simp
    from False show ?thesis
      unfolding stop by simp
  qed
qed

lemma moving_average_unfold:
  assumes "data \<noteq> []" "0 < window" "nat window \<le> length data"
  shows "moving_average data window =
     (let window_sum = window_sum_loop data window 0 (Finite 0);
          vals = slide_loop data window (nat window) window_sum
                   [fdiv window_sum (Finite (real_of_int window))]
      in \<lparr>values_f = vals,
          current_average = (if vals = [] then Finite 0 else last vals),
          window_size = window\<rparr>)"
  using assms by (simp add: moving_average_def MovingAverageResult_init_def Let_def)

lemma moving_average_shape:
  assumes "data \<noteq> []" "0 < window" "nat window \<le> length data"
  shows "length (values_f (moving_average data window)) = length data - nat window + 1"
    and "current_average (moving_average data window) =
           last (values_f (moving_average data window))"
    and "window_size (moving_average data window) = window"
proof -
  show len: "length (values_f (moving_average data window)) = length data - nat window + 1"
    unfolding moving_average_unfold [OF assms] Let_def
    by (simp add: length_slide_loop)
  then have "values_f (moving_average data window) \<noteq> []"
    by auto
  then show "current_average (moving_average data window) =
           last (values_f (moving_average data window))"
    unfolding moving_average_unfold [OF assms] Let_def
    by (simp only: MovingAverageResult.select_convs if_False)
  show "window_size (moving_average data window) = window"
    unfolding moving_average_unfold [OF assms] Let_def
    by (simp only: MovingAverageResult.select_convs)
qed

lemma moving_average_clamped:
  "data \<noteq> [] \<Longrightarrow> length data < nat window \<Longrightarrow>
   moving_average data window = moving_average data (int (length data))"
  by (auto simp: moving_average_def MovingAverageResult_init_def Let_def)

lemma exact_sumsD:
  assumes "exact_sums xs window" "a < length xs" "l \<le> nat window"
  shows "round_double (sum_list (take l (drop a xs))) = Finite (sum_list (take l (drop a xs)))"
proof -
  from assms(2,3) have "a \<in> set [0..<length xs]" "l \<in> set [0..<Suc (nat window)]"
    by (simp_all del: upt_Suc)
  with assms(1) show ?thesis
    unfolding exact_sums_def by blast
qed

lemma window_sum_loop_exact:
  "0 \<le> i \<Longrightarrow> i \<le> window \<Longrightarrow> nat window \<le> length xs \<Longrightarrow> xs \<noteq> [] \<Longrightarrow>
   exact_sums xs window \<Longrightarrow>
   window_sum_loop (map Finite xs) window i (Finite (sum_list (take (nat i) xs))) =
     Finite (sum_list (take (nat window) xs))"
proof (induction "map Finite xs" window i "Finite (sum_list (take (nat i) xs))"
    rule: window_sum_loop.induct)
  case (1 window i)
  show ?case
  proof (cases "i < window")
    case True
    from True "1.prems" have lt: "nat i < length xs" by linarith
    from "1.prems" have m: "nat (i + 1) = Suc (nat i)" by linarith
    from lt have tk: "take (Suc (nat i)) xs = take (nat i) xs @ [xs ! nat i]"
      by (rule take_Suc_conv_app_nth)
    from "1.prems" have pos: "0 < length xs" by simp
    from True "1.prems" have le: "Suc (nat i) \<le> nat window" by linarith
    from exact_sumsD [OF "1.prems"(5) pos le]
    have ex: "round_double (sum_list (take (nat i) xs) + xs ! nat i) =
        Finite (sum_list (take (Suc (nat i)) xs))"
      by (simp add: tk)
    from lt have add: "fadd (Finite (sum_list (take (nat i) xs))) (map Finite xs ! nat i) =
        Finite (sum_list (take (nat (i + 1)) xs))"
      by (simp add: ex m tk)
    from True have step: "window_sum_loop (map Finite xs) window i
          (Finite (sum_list (take (nat i) xs))) =
        window_sum_loop (map Finite xs) window (i + 1)
          (fadd (Finite (sum_list (take (nat i) xs))) (map Finite xs ! nat i))"
      by (subst window_sum_loop.simps) simp
    from "1.prems" True have p: "0 \<le> i + 1" "i + 1 \<le> window" by simp_all
    show ?thesis
      unfolding step add
      by (rule "1.hyps" [OF True add p "1.prems"(3,4,5)])
  next
    case False
    with "1.prems" have "i = window" by simp
    with False show ?thesis
      by (subst window_sum_loop.simps) simp
  qed
qed

lemma window_drop_first:
  assumes "a < length xs" and "0 < w"
  shows "sum_list (take w (drop a xs)) - xs ! a =
         sum_list (take (w - 1) (drop (Suc a) xs :: real list))"
proof -
  from assms obtain v where w: "w = Suc v" by (cases w) auto
  from assms have "drop a xs = xs ! a # drop (Suc a) xs"
    by (simp add: Cons_nth_drop_Suc)
  then show ?thesis by (simp add: w)
qed

lemma window_add_last:
  assumes "a + w < length xs" and "0 < w"
  shows "sum_list (take (w - 1) (drop (Suc a) xs)) + xs ! (a + w) =
         sum_list (take w (drop (Suc a) xs :: real list))"
proof -
  from assms obtain v where w: "w = Suc v" by (cases w) auto
  from assms have "v < length (drop (Suc a) xs)" by (simp add: w)
  then have "take (Suc v) (drop (Suc a) xs) =
      take v (drop (Suc a) xs) @ [drop (Suc a) xs ! v]"
    by (rule take_Suc_conv_app_nth)
  also from assms have "drop (Suc a) xs ! v = xs ! (a + w)"
    by (simp add: w)
  finally show ?thesis by (simp add: w)
qed

lemma slide_loop_exact:
  "0 < window \<Longrightarrow> nat window \<le> i \<Longrightarrow> i \<le> length xs \<Longrightarrow> exact_sums xs window \<Longrightarrow>
   S = sum_list (take (nat window) (drop (i - nat window) xs)) \<Longrightarrow>
   slide_loop (map Finite xs) window i (Finite S) vals =
     vals @ map (\<lambda>j. round_double
                        (sum_list (take (nat window) (drop (Suc j - nat window) xs))
                         / real_of_int window)) [i..<length xs]"
proof (induction "map Finite xs" window i "Finite S" vals arbitrary: S rule: slide_loop.induct)
  case (1 window i vals)
  let ?w = "nat window"
  show ?case
  proof (cases "i < length xs")
    case True
    let ?a = "i - ?w"
    let ?S1 = "sum_list (take (?w - 1) (drop (Suc ?a) xs))"
    let ?S2 = "sum_list (take ?w (drop (Suc ?a) xs))"
    let ?ws = "fadd (fsub (Finite S) (map Finite xs ! ?a)) (map Finite xs ! i)"
    from "1.prems" True have a: "?a < length xs" "0 < ?w" "?a + ?w < length xs" "?a + ?w = i"
      by simp_all
    from "1.prems" True have sa: "Suc ?a < length xs" by linarith
    have "S - xs ! ?a = ?S1"
      unfolding "1.prems"(5) by (rule window_drop_first [OF a(1,2)])
    moreover have "round_double ?S1 = Finite ?S1"
      by (rule exact_sumsD [OF "1.prems"(4) sa]) simp
    ultimately have sub: "fsub (Finite S) (Finite (xs ! ?a)) = Finite ?S1"
      by (simp add: fsub_def)
    from a(1) have n1: "map Finite xs ! ?a = Finite (xs ! ?a)" by simp
    from True have n2: "map Finite xs ! i = Finite (xs ! i)" by simp
    have "?S1 + xs ! i = ?S2"
      using window_add_last [OF a(3,2)] by (simp only: a(4))
    moreover have "round_double ?S2 = Finite ?S2"
      by (rule exact_sumsD [OF "1.prems"(4) sa]) simp
    ultimately have "fadd (Finite ?S1) (Finite (xs ! i)) = Finite ?S2"
      by simp
    then have ws: "?ws = Finite ?S2"
      unfolding n1 n2 sub .
    from "1.prems" have wne: "real_of_int window \<noteq> 0" by simp
    then have dv: "fdiv (Finite ?S2) (Finite (real_of_int window)) =
        round_double (?S2 / real_of_int window)"
      by simp
    from True have step: "slide_loop (map Finite xs) window i (Finite S) vals =
        slide_loop (map Finite xs) window (i + 1) ?ws
          (vals @ [fdiv ?ws (Finite (real_of_int window))])"
      by (subst slide_loop.simps) (simp add: Let_def)
    from True have lt: "i < length (map Finite xs)" by simp
    from "1.prems" have p2: "?w \<le> i + 1" by simp
    from True have p3: "i + 1 \<le> length xs" by simp
    from "1.prems" have sd: "Suc ?a = i + 1 - ?w" by linarith
    have p5: "?S2 = sum_list (take ?w (drop (i + 1 - ?w) xs))"
      by (simp only: sd)
    note ih = "1.hyps" [OF lt ws [symmetric] "1.prems"(1) p2 p3 "1.prems"(4) p5, unfolded dv]
    from True have up: "[i..<length xs] = i # [i + 1..<length xs]"
      by (simp add: upt_conv_Cons)
    from "1.prems" have sj: "Suc i - ?w = Suc ?a" by linarith
    show ?thesis
      unfolding step ws dv ih up by (simp add: sj)
  next
    case False
    then have stop: "slide_loop (map Finite xs) window i (Finite S) vals = vals"
      by (subst slide_loop.simps) simp
    from False "1.prems" show ?thesis
      unfolding stop by simp
  qed
qed

lemma moving_average_exact_values:
  assumes "xs \<noteq> []" "0 < window" "nat window \<le> length xs" "exact_sums xs window"
  shows "values_f (moving_average (map Finite xs) window) =
     map (\<lambda>k. round_double (sum_list (take (nat window) (drop k xs)) / real_of_int window))
       [0..<Suc (length xs - nat window)]"
proof -
  let ?w = "nat window"
  let ?n = "length xs"
  let ?avg = "\<lambda>k. round_double (sum_list (take ?w (drop k xs)) / real_of_int window)"
  from assms have h: "map Finite xs \<noteq> []" "0 < window" "?w \<le> length (map Finite xs)"
    by simp_all
  have "window_sum_loop (map Finite xs) window 0 (Finite (sum_list (take (nat 0) xs))) =
      Finite (sum_list (take ?w xs))"
    using assms by (intro window_sum_loop_exact) simp_all
  then have init: "window_sum_loop (map Finite xs) window 0 (Finite 0) =
      Finite (sum_list (take ?w xs))"
    by simp
  from assms have dv: "fdiv (Finite (sum_list (take ?w xs))) (Finite (real_of_int window)) = ?avg 0"
    by simp
  have "slide_loop (map Finite xs) window ?w (Finite (sum_list (take ?w xs))) [?avg 0] =
      [?avg 0] @ map (\<lambda>j. ?avg (Suc j - ?w)) [?w..<?n]"
    using assms by (intro slide_loop_exact) simp_all
  also from assms have "[?w..<?n] = map (\<lambda>i. i + ?w) [0..<?n - ?w]"
    by (simp add: map_add_upt)
  also have "map (\<lambda>j. ?avg (Suc j - ?w)) (map (\<lambda>i. i + ?w) [0..<?n - ?w]) =
      map ?avg (map Suc [0..<?n - ?w])"
    by (simp add: comp_def)
  also have "map Suc [0..<?n - ?w] = [Suc 0..<Suc (?n - ?w)]"
    by (rule map_Suc_upt)
  also have "[?avg 0] @ map ?avg [Suc 0..<Suc (?n - ?w)] = map ?avg (0 # [Suc 0..<Suc (?n - ?w)])"
    by simp
  also have "0 # [Suc 0..<Suc (?n - ?w)] = [0..<Suc (?n - ?w)]"
    by (simp add: upt_conv_Cons)
  finally have sl: "slide_loop (map Finite xs) window ?w (Finite (sum_list (take ?w xs))) [?avg 0] =
      map ?avg [0..<Suc (?n - ?w)]" .
  show ?thesis
    unfolding moving_average_unfold [OF h] Let_def init dv sl
    by (simp only: MovingAverageResult.select_convs)
qed

text \<open>
  Claim C5, as amended. For a non-empty input of length \<open>n\<close> and \<open>0 < window \<le> n\<close>,
  \<open>moving_average\<close> produces \<open>n - window + 1\<close> values, the window descriptor is the
  window and the current average is the last value. When every sum of at most \<open>window\<close>
  consecutive inputs is a binary64 value, the \<open>k\<close>-th value is the arithmetic mean of the
  \<open>window\<close> consecutive inputs from position \<open>k\<close> to position \<open>window - 1 + k\<close>,
  rounded to binary64. A window larger than \<open>n\<close> is clamped to \<open>n\<close>: the result is that
  of the window \<open>n\<close>, and its descriptor is \<open>n\<close>.
\<close>

theorem moving_average_windows:
  "(data \<noteq> [] \<and> 0 < window \<and> window \<le> int (length data) \<longrightarrow>
      length (values_f (moving_average data window)) = length data - nat window + 1
      \<and> window_size (moving_average data window) = window
      \<and> current_average (moving_average data window) =
          last (values_f (moving_average data window)))
   \<and> (xs \<noteq> [] \<and> 0 < window \<and> window \<le> int (length xs) \<and> exact_sums xs window \<longrightarrow>
      (\<forall>k < length xs - nat window + 1.
         values_f (moving_average (map Finite xs) window) ! k =
           round_double (sum_list (take (nat window) (drop k xs)) / real_of_int window)))
   \<and> (data \<noteq> [] \<and> int (length data) < window \<longrightarrow>
      moving_average data window = moving_average data (int (length data))
      \<and> window_size (moving_average data window) = int (length data))"
proof (intro conjI impI)
  assume a: "data \<noteq> [] \<and> 0 < window \<and> window \<le> int (length data)"
  then have h: "data \<noteq> []" "0 < window" "nat window \<le> length data"
    by linarith+
  show "length (values_f (moving_average data window)) = length data - nat window + 1"
    by (rule moving_average_shape(1) [OF h])
  show "window_size (moving_average data window) = window"
    by (rule moving_average_shape(3) [OF h])
  show "current_average (moving_average data window) =
      last (values_f (moving_average data window))"
    by (rule moving_average_shape(2) [OF h])
next
  assume a: "xs \<noteq> [] \<and> 0 < window \<and> window \<le> int (length xs) \<and> exact_sums xs window"
  then have h: "xs \<noteq> []" "0 < window" "nat window \<le> length xs" "exact_sums xs window"
    by linarith+
  show "\<forall>k < length xs - nat window + 1.
      values_f (moving_average (map Finite xs) window) ! k =
        round_double (sum_list (take (nat window) (drop k xs)) / real_of_int window)"
    unfolding moving_average_exact_values [OF h] by (simp del: upt_Suc)
next
  assume a: "data \<noteq> [] \<and> int (length data) < window"
  then have h: "data \<noteq> []" "length data < nat window"
    by linarith+
  show c: "moving_average data window = moving_average data (int (length data))"
    by (rule moving_average_clamped [OF h])
  from h have "0 < int (length data)" "nat (int (length data)) \<le> length data"
    by simp_all
  from moving_average_shape(3) [OF h(1) this]
  show "window_size (moving_average data window) = int (length data)"
    unfolding c .
qed

theorem moving_average_windows_witness:
  "map Finite [10, 20, 30, 40, 50] \<noteq> [] \<and> (0 :: int) < 3
   \<and> (3 :: int) \<le> int (length (map Finite [10, 20, 30, 40, 50]))
   \<and> [10, 20, 30, 40, 50 :: real] \<noteq> [] \<and> exact_sums [10, 20, 30, 40, 50] 3
   \<and> length (values_f (moving_average (map Finite [10, 20, 30, 40, 50]) 3)) = 3
   \<and> values_f (moving_average (map Finite [10, 20, 30, 40, 50]) 3) ! 0 = Finite 20
   \<and> values_f (moving_average (map Finite [10, 20, 30, 40, 50]) 3) ! 1 = Finite 30
   \<and> values_f (moving_average (map Finite [10, 20, 30, 40, 50]) 3) ! 2 = Finite 40
   \<and> window_size (moving_average (map Finite [10, 20, 30, 40, 50]) 3) = 3
   \<and> int (length (map Finite [10, 20, 30, 40, 50])) < 7
   \<and> window_size (moving_average (map Finite [10, 20, 30, 40, 50]) 7) = 5"
proof -
  let ?x = "[10, 20, 30, 40, 50 :: real]"
  let ?d = "map Finite ?x"
  have h: "?d \<noteq> [] \<and> (0 :: int) < 3 \<and> (3 :: int) \<le> int (length ?d)"
    by simp
  have ex: "exact_sums ?x 3"
    by (simp add: exact_sums_def round_double_eval upt_rec)
  have hx: "?x \<noteq> [] \<and> (0 :: int) < 3 \<and> (3 :: int) \<le> int (length ?x) \<and> exact_sums ?x 3"
    using ex by simp
  from moving_average_windows [of ?d 3 ?x] h
  have len: "length (values_f (moving_average ?d 3)) = length ?d - nat 3 + 1"
    and ws: "window_size (moving_average ?d 3) = 3"
    by blast+
  from moving_average_windows [of ?d 3 ?x] hx
  have nth: "\<forall>k < length ?x - nat 3 + 1.
        values_f (moving_average ?d 3) ! k =
          round_double (sum_list (take (nat 3) (drop k ?x)) / real_of_int 3)"
    by blast
  from len have l: "length (values_f (moving_average ?d 3)) = 3"
    by simp
  have "(0 :: nat) < length ?x - nat 3 + 1" by simp
  from nth [rule_format, OF this] have v0: "values_f (moving_average ?d 3) ! 0 = Finite 20"
    by (simp add: eval_nat_numeral round_double_eval)
  have "(1 :: nat) < length ?x - nat 3 + 1" by simp
  from nth [rule_format, OF this] have v1: "values_f (moving_average ?d 3) ! 1 = Finite 30"
    by (simp add: eval_nat_numeral round_double_eval)
  have "(2 :: nat) < length ?x - nat 3 + 1" by simp
  from nth [rule_format, OF this] have v2: "values_f (moving_average ?d 3) ! 2 = Finite 40"
    by (simp add: eval_nat_numeral round_double_eval)
  have h7: "?d \<noteq> [] \<and> int (length ?d) < 7"
    by simp
  with moving_average_windows [of ?d 7 ?x]
  have "window_size (moving_average ?d 7) = int (length ?d)"
    by blast
  then have w7: "window_size (moving_average ?d 7) = 5"
    by simp
  from h ex l v0 v1 v2 ws h7 w7 show ?thesis by simp
qed

text \<open>
  Claim C5 as stated fails: the running sum keeps the rounding of elements that have left
  the window. On \<open>10 ^ 16, 1, 1, 1\<close> with the window \<open>2\<close> the first sum,
  \<open>10 ^ 16 + 1\<close>, rounds to \<open>10 ^ 16\<close>; after the slide the running sum is \<open>1\<close>, and
  the value for the window \<open>1, 1\<close> is \<open>0.5\<close>, while its mean is \<open>1\<close>.
\<close>

theorem moving_average_rounding_counterexample:
  "round_double (10 ^ 16) = Finite (10 ^ 16) \<and> round_double 1 = Finite 1
   \<and> values_f (moving_average (map Finite [10 ^ 16, 1, 1, 1]) 2) =
       [Finite (5 * 10 ^ 15), Finite (1 / 2), Finite (1 / 2)]
   \<and> sum_list (take 2 (drop 1 [10 ^ 16, 1, 1, 1 :: real])) / 2 = 1"
  by (simp add: moving_average_def MovingAverageResult_init_def window_sum_loop.simps
      slide_loop.simps fsub_def round_double_eval)

lemma window_size_moving_average:
  "window_size (moving_average data window) =
     (if data \<noteq> [] \<and> 0 < window \<and> length data < nat window then int (length data) else window)"
  by (simp add: moving_average_def MovingAverageResult_init_def Let_def)

text \<open>
  Claim C4, as amended. Every result of \<open>exponential_moving_average\<close> carries the window
  descriptor \<open>-1\<close>. A result of \<open>moving_average\<close> carries a descriptor other than \<open>-1\<close>
  whenever the requested window is not \<open>-1\<close>, and a positive one whenever the requested
  window is positive (every valid window): the two modes are told apart by the descriptor
  for every call of \<open>moving_average\<close> with a window other than \<open>-1\<close>.
\<close>

theorem ema_window_descriptor:
  "window_size (exponential_moving_average data alpha) = - 1
   \<and> (window \<noteq> - 1 \<longrightarrow> window_size (moving_average xs window) \<noteq> - 1)
   \<and> (0 < window \<longrightarrow> 0 < window_size (moving_average xs window))"
  by (auto simp: window_size_moving_average exponential_moving_average_def
      MovingAverageResult_init_def Let_def)

theorem ema_window_descriptor_witness:
  "window_size (exponential_moving_average (map Finite [10, 20, 30]) (Finite (1 / 2))) = - 1
   \<and> (3 :: int) \<noteq> - 1 \<and> (0 :: int) < 3
   \<and> window_size (moving_average (map Finite [10, 20, 30, 40, 50]) 3) = 3
   \<and> (7 :: int) \<noteq> - 1 \<and> (0 :: int) < 7
   \<and> window_size (moving_average (map Finite [10, 20, 30, 40, 50]) 7) = 5"
  using ema_window_descriptor [of "map Finite [10, 20, 30]" "Finite (1 / 2)" 3
      "map Finite [10, 20, 30, 40, 50]"]
    ema_window_descriptor [of "map Finite [10, 20, 30]" "Finite (1 / 2)" 7
      "map Finite [10, 20, 30, 40, 50]"]
  by (simp add: window_size_moving_average)

text \<open>
  Claim C4 as stated fails: \<open>moving_average\<close> stores the requested window before it
  checks it, so a call with the window \<open>-1\<close> returns the descriptor \<open>-1\<close>, and on an
  empty input its whole result equals a result of \<open>exponential_moving_average\<close>.
\<close>

theorem ema_window_descriptor_counterexample:
  "moving_average [] (- 1) = exponential_moving_average [] (Finite (1 / 2))
   \<and> window_size (moving_average [] (- 1)) = - 1
   \<and> window_size (exponential_moving_average [] (Finite (1 / 2))) = - 1"
  by (simp add: moving_average_def exponential_moving_average_def MovingAverageResult_init_def)

lemma ema_loop_props:
  "0 < i \<Longrightarrow> length vals = i \<Longrightarrow> i \<le> length data \<Longrightarrow>
   length (ema_loop data alpha i vals) = length data \<and>
   take i (ema_loop data alpha i vals) = vals \<and>
   (\<forall>j. i \<le> j \<and> j < length data \<longrightarrow>
      ema_loop data alpha i vals ! j =
        fadd (fmul alpha (data ! j))
          (fmul (fsub (Finite 1) alpha) (ema_loop data alpha i vals ! (j - 1))))"
proof (induction data alpha i vals rule: ema_loop.induct)
  case (1 data alpha i vals)
  show ?case
  proof (cases "i < length data")
    case True
    let ?ema = "fadd (fmul alpha (data ! i)) (fmul (fsub (Finite 1) alpha) (last vals))"
    let ?r = "ema_loop data alpha (i + 1) (vals @ [?ema])"
    from True have step: "ema_loop data alpha i vals = ?r"
      by (subst ema_loop.simps) (simp add: Let_def)
    have p1: "0 < i + 1" by simp
    from "1.prems" have p2: "length (vals @ [?ema]) = i + 1" by simp
    from True have p3: "i + 1 \<le> length data" by simp
    note ih = "1.IH" [OF True refl p1 p2 p3]
    from ih have len: "length ?r = length data" by (rule conjunct1)
    from ih have pre: "take (i + 1) ?r = vals @ [?ema]" by (rule conjunct2 [THEN conjunct1])
    from ih have rec: "\<forall>j. i + 1 \<le> j \<and> j < length data \<longrightarrow>
        ?r ! j = fadd (fmul alpha (data ! j)) (fmul (fsub (Finite 1) alpha) (?r ! (j - 1)))"
      by (rule conjunct2 [THEN conjunct2])
    have "take i ?r = take i (take (i + 1) ?r)"
      by (simp add: min_def)
    also have "\<dots> = vals"
      unfolding pre using "1.prems" by simp
    finally have pre_i: "take i ?r = vals" .
    from True len have "?r ! i = take (i + 1) ?r ! i"
      by simp
    also have "\<dots> = ?ema"
      unfolding pre using "1.prems" by (simp add: nth_append)
    finally have at_i: "?r ! i = ?ema" .
    from "1.prems" have "vals \<noteq> []" by auto
    then have "last vals = vals ! (i - 1)"
      using "1.prems" by (simp add: last_conv_nth)
    also have "\<dots> = take i ?r ! (i - 1)"
      by (simp only: pre_i)
    also have "\<dots> = ?r ! (i - 1)"
      using "1.prems" by simp
    finally have lst: "last vals = ?r ! (i - 1)" .
    have "?r ! j = fadd (fmul alpha (data ! j)) (fmul (fsub (Finite 1) alpha) (?r ! (j - 1)))"
      if "i \<le> j \<and> j < length data" for j
    proof (cases "j = i")
      case True
      then show ?thesis using at_i lst by simp
    next
      case False
      with that have "i + 1 \<le> j \<and> j < length data" by simp
      with rec show ?thesis by blast
    qed
    with len pre_i show ?thesis
      unfolding step by blast
  next
    case False
    then have stop: "ema_loop data alpha i vals = vals"
      by (subst ema_loop.simps) simp
    from False "1.prems" have "i = length data" by simp
    with "1.prems" show ?thesis
      unfolding stop by auto
  qed
qed

lemma in_unit_interval_guard:
  "in_unit_interval alpha \<Longrightarrow> \<not> fle alpha (Finite 0) \<and> \<not> fless (Finite 1) alpha"
  by (cases alpha) auto

lemma outside_unit_interval_guard:
  "\<not> in_unit_interval alpha \<Longrightarrow> alpha \<noteq> NaN \<Longrightarrow>
   fle alpha (Finite 0) \<or> fless (Finite 1) alpha"
  by (cases alpha) auto

text \<open>
  Claim C6, as amended. For a non-empty input and \<open>alpha\<close> in \<open>(0, 1]\<close>, the series has
  one value for every input element, its first value is the first observation, and every
  later value is \<open>alpha\<close> times the observation plus \<open>1 - alpha\<close> times the value before
  it, each operation in double arithmetic. For an empty input, or an \<open>alpha\<close> outside
  \<open>(0, 1]\<close> that is not NaN, the series is empty.
\<close>

theorem ema_series:
  "(data \<noteq> [] \<and> in_unit_interval alpha \<longrightarrow>
      length (values_f (exponential_moving_average data alpha)) = length data
      \<and> values_f (exponential_moving_average data alpha) ! 0 = data ! 0
      \<and> (\<forall>i. 0 < i \<and> i < length data \<longrightarrow>
            values_f (exponential_moving_average data alpha) ! i =
              fadd (fmul alpha (data ! i))
                (fmul (fsub (Finite 1) alpha)
                   (values_f (exponential_moving_average data alpha) ! (i - 1)))))
   \<and> (data = [] \<or> (\<not> in_unit_interval alpha \<and> alpha \<noteq> NaN) \<longrightarrow>
      values_f (exponential_moving_average data alpha) = [])"
proof (intro conjI impI)
  assume a: "data \<noteq> [] \<and> in_unit_interval alpha"
  let ?r = "ema_loop data alpha 1 [data ! 0]"
  from a in_unit_interval_guard [of alpha]
  have v: "values_f (exponential_moving_average data alpha) = ?r"
    by (simp add: exponential_moving_average_def MovingAverageResult_init_def Let_def)
  from a have "1 \<le> length data"
    by (cases data) simp_all
  from ema_loop_props [of 1 "[data ! 0]" data alpha, OF _ _ this]
  have len: "length ?r = length data" and pre: "take 1 ?r = [data ! 0]"
    and rec: "\<forall>j. 1 \<le> j \<and> j < length data \<longrightarrow>
      ?r ! j = fadd (fmul alpha (data ! j)) (fmul (fsub (Finite 1) alpha) (?r ! (j - 1)))"
    by simp_all
  show "length (values_f (exponential_moving_average data alpha)) = length data"
    unfolding v by (rule len)
  from pre have "take 1 ?r ! 0 = data ! 0" by simp
  then show "values_f (exponential_moving_average data alpha) ! 0 = data ! 0"
    unfolding v by simp
  show "\<forall>i. 0 < i \<and> i < length data \<longrightarrow>
      values_f (exponential_moving_average data alpha) ! i =
        fadd (fmul alpha (data ! i))
          (fmul (fsub (Finite 1) alpha)
             (values_f (exponential_moving_average data alpha) ! (i - 1)))"
    unfolding v using rec by auto
next
  assume "data = [] \<or> (\<not> in_unit_interval alpha \<and> alpha \<noteq> NaN)"
  then have "data = [] \<or> fle alpha (Finite 0) \<or> fless (Finite 1) alpha"
    using outside_unit_interval_guard [of alpha] by blast
  then show "values_f (exponential_moving_average data alpha) = []"
    by (auto simp: exponential_moving_average_def MovingAverageResult_init_def)
qed

theorem ema_series_witness:
  "map Finite [10, 20, 30, 40, 50] \<noteq> [] \<and> in_unit_interval (Finite (1 / 2))
   \<and> length (values_f (exponential_moving_average (map Finite [10, 20, 30, 40, 50])
        (Finite (1 / 2)))) = 5
   \<and> values_f (exponential_moving_average (map Finite [10, 20, 30, 40, 50])
        (Finite (1 / 2))) ! 0 = Finite 10
   \<and> values_f (exponential_moving_average (map Finite [10, 20, 30, 40, 50])
        (Finite (1 / 2))) ! 1 = Finite 15
   \<and> \<not> in_unit_interval (Finite 2) \<and> Finite 2 \<noteq> NaN
   \<and> values_f (exponential_moving_average (map Finite [10, 20]) (Finite 2)) = []
   \<and> \<not> in_unit_interval MinusInf \<and> MinusInf \<noteq> NaN
   \<and> values_f (exponential_moving_average (map Finite [10, 20]) MinusInf) = []"
proof -
  let ?d = "map Finite [10, 20, 30, 40, 50]"
  let ?a = "Finite (1 / 2)"
  have h: "?d \<noteq> [] \<and> in_unit_interval ?a"
    by simp
  from ema_series [of ?d ?a] h
  have len: "length (values_f (exponential_moving_average ?d ?a)) = length ?d"
    and v0: "values_f (exponential_moving_average ?d ?a) ! 0 = ?d ! 0"
    and rec: "\<forall>i. 0 < i \<and> i < length ?d \<longrightarrow>
          values_f (exponential_moving_average ?d ?a) ! i =
            fadd (fmul ?a (?d ! i))
              (fmul (fsub (Finite 1) ?a) (values_f (exponential_moving_average ?d ?a) ! (i - 1)))"
    by blast+
  have "(0 :: nat) < 1 \<and> 1 < length ?d" by simp
  with rec have "values_f (exponential_moving_average ?d ?a) ! 1 =
      fadd (fmul ?a (?d ! 1))
        (fmul (fsub (Finite 1) ?a) (values_f (exponential_moving_average ?d ?a) ! (1 - 1)))"
    by blast
  with v0 have v1: "values_f (exponential_moving_average ?d ?a) ! 1 = Finite 15"
    by (simp add: fsub_def round_double_eval)
  have h2: "\<not> in_unit_interval (Finite 2) \<and> Finite 2 \<noteq> NaN"
    by simp
  with ema_series [of "map Finite [10, 20]" "Finite 2"]
  have e2: "values_f (exponential_moving_average (map Finite [10, 20]) (Finite 2)) = []"
    by blast
  have h3: "\<not> in_unit_interval MinusInf \<and> MinusInf \<noteq> NaN"
    by simp
  with ema_series [of "map Finite [10, 20]" MinusInf]
  have e3: "values_f (exponential_moving_average (map Finite [10, 20]) MinusInf) = []"
    by blast
  from h len v0 v1 h2 e2 h3 e3 show ?thesis by simp
qed

text \<open>
  Claim C6 as stated fails: NaN is not in \<open>(0, 1]\<close>, but both comparisons of the guard
  are false for it, and the series is not empty.
\<close>

theorem ema_nan_counterexample:
  "\<not> in_unit_interval NaN
   \<and> values_f (exponential_moving_average [Finite 1, Finite 2] NaN) = [Finite 1, NaN]"
  by (simp add: exponential_moving_average_def MovingAverageResult_init_def ema_loop.simps
      fsub_def)

subsection \<open>Correlation\<close>

text \<open>
  Claim C7. For two sequences that differ in length, or that have fewer than two elements
  each, \<open>correlation\<close> returns a result (it has no failing path) whose coefficient and
  r-squared are \<open>0\<close>, whose strength is \<open>invalid\<close> and whose direction is \<open>none\<close>.
\<close>

theorem correlation_degenerate:
  "length x \<noteq> length y \<or> (length x < 2 \<and> length y < 2) \<Longrightarrow>
   correlation x y =
     \<lparr>pearson_coefficient = 0, r_squared = 0, strength = ''invalid'', direction = ''none''\<rparr>"
  by (auto simp: correlation_def CorrelationResult_init_def)

theorem correlation_degenerate_witness:
  "length [1, 2 :: double] \<noteq> length [1 :: double]
   \<and> correlation [1, 2] [1] =
     \<lparr>pearson_coefficient = 0, r_squared = 0, strength = ''invalid'', direction = ''none''\<rparr>
   \<and> length [1 :: double] < 2 \<and> length [2 :: double] < 2
   \<and> correlation [1] [2] =
     \<lparr>pearson_coefficient = 0, r_squared = 0, strength = ''invalid'', direction = ''none''\<rparr>"
  using correlation_degenerate [of "[1, 2]" "[1]"] correlation_degenerate [of "[1]" "[2]"]
  by simp

subsection \<open>Outlier detection\<close>





end
